theory Spec2Isabelle
  imports Complex_Main
begin

section \<open>Pixel buffers\<close>

text \<open>
  A pixel is the 4-tuple (R, G, B, A) that the image library hands out for an RGBA
  image; coordinates are Python integers. The pixel buffer is the library's image
  object as the code uses it: its size and the pixel access object \<open>pixels[x, y]\<close>.
  The buffer is taken to be in mode RGBA already, so that the
  \<open>image.convert("RGBA")\<close> branch of each function is not entered.
\<close>

type_synonym rgba = "int \<times> int \<times> int \<times> int"

type_synonym coord = "int \<times> int"

record image =
  width :: nat
  height :: nat
  pixels :: "coord \<Rightarrow> rgba"

datatype error = IndexError

definition transparent :: rgba where
  "transparent = (0, 0, 0, 0)"

text \<open>
  Index resolution of \<open>pixels[x, y]\<close> and of the nested list \<open>visited[x][y]\<close>: a
  negative index counts from the end, and an index that is still out of range raises
  IndexError (here: \<open>None\<close>).
\<close>

definition py_index :: "nat \<Rightarrow> int \<Rightarrow> int option" where
  "py_index n i =
     (if i < 0 then (if 0 \<le> int n + i then Some (int n + i) else None)
      else (if i < int n then Some i else None))"

definition resolve :: "nat \<Rightarrow> nat \<Rightarrow> coord \<Rightarrow> coord option" where
  "resolve w h c =
     (case py_index w (fst c) of
        None \<Rightarrow> None
      | Some x \<Rightarrow> (case py_index h (snd c) of None \<Rightarrow> None | Some y \<Rightarrow> Some (x, y)))"

definition grid :: "nat \<Rightarrow> nat \<Rightarrow> coord set" where
  "grid w h = {0..<int w} \<times> {0..<int h}"

definition get_pixel :: "image \<Rightarrow> coord \<Rightarrow> error + rgba" where
  "get_pixel img c =
     (case resolve (width img) (height img) c of
        None \<Rightarrow> Inl IndexError
      | Some p \<Rightarrow> Inr (pixels img p))"

text \<open>\<open>[pixels[x, y] for x, y in seeds]\<close>: the first seed out of range raises.\<close>

fun sample_colors :: "image \<Rightarrow> coord list \<Rightarrow> error + rgba list" where
  "sample_colors img [] = Inr []"
| "sample_colors img (s # seeds) =
     (case get_pixel img s of
        Inl e \<Rightarrow> Inl e
      | Inr c \<Rightarrow> (case sample_colors img seeds of Inl e \<Rightarrow> Inl e | Inr cs \<Rightarrow> Inr (c # cs)))"

section \<open>Colour distance (libs/common.py, color\_distance)\<close>

text \<open>
  \<open>color_distance\<close> takes the first three channels of each colour and returns
  \<open>((r1 - r2) ** 2 + (g1 - g2) ** 2 + (b1 - b2) ** 2) ** 0.5\<close>. The Python float is
  read as a real number, and the threshold likewise; the sum of squares is an exact
  integer in the source.
\<close>

definition sq_distance :: "rgba \<Rightarrow> rgba \<Rightarrow> int" where
  "sq_distance color1 color2 =
     (case color1 of (r1, g1, b1, a1) \<Rightarrow>
      case color2 of (r2, g2, b2, a2) \<Rightarrow>
        (r1 - r2)\<^sup>2 + (g1 - g2)\<^sup>2 + (b1 - b2)\<^sup>2)"

definition color_distance :: "rgba \<Rightarrow> rgba \<Rightarrow> real" where
  "color_distance color1 color2 = sqrt (real_of_int (sq_distance color1 color2))"

text \<open>\<open>any(color_distance(sc, current_color) <= threshold for sc in seed_colors)\<close>\<close>

definition any_within :: "rgba list \<Rightarrow> rgba \<Rightarrow> real \<Rightarrow> bool" where
  "any_within seed_colors current_color threshold =
     list_ex (\<lambda>sc. color_distance sc current_color \<le> threshold) seed_colors"

section \<open>Flood fill (libs/removal.py, floodfill\_remove)\<close>

definition neighbors :: "bool \<Rightarrow> coord list" where
  "neighbors eight_way =
     [(0, -1), (-1, 0), (1, 0), (0, 1)] @
     (if eight_way then [(-1, -1), (1, -1), (-1, 1), (1, 1)] else [])"

text \<open>
  The state of the loop besides the queue: the \<open>visited\<close> grid (the set of marked
  cells), the pixel access object and the counter.
\<close>

record fill_state =
  visited :: "coord set"
  pix :: "coord \<Rightarrow> rgba"
  removed :: nat

text \<open>
  \<open>for dx, dy in neighbors: nx, ny = x + dx, y + dy;
     if 0 <= nx < width and 0 <= ny < height: queue.append((nx, ny))\<close>
\<close>

definition in_bounds :: "nat \<Rightarrow> nat \<Rightarrow> coord \<Rightarrow> bool" where
  "in_bounds w h c = (0 \<le> fst c \<and> fst c < int w \<and> 0 \<le> snd c \<and> snd c < int h)"

definition enqueue_neighbors :: "nat \<Rightarrow> nat \<Rightarrow> coord list \<Rightarrow> coord \<Rightarrow> coord list" where
  "enqueue_neighbors w h nbrs c =
     filter (in_bounds w h) (map (\<lambda>d. (fst c + fst d, snd c + snd d)) nbrs)"

text \<open>
  The \<open>while queue:\<close> loop. One equation per shape of the queue; the second follows
  the loop body line by line: pop, the visited test, the mark, the colour test, the
  overwrite and count, the neighbours appended at the right end of the queue.
\<close>

function bfs_loop ::
  "nat \<Rightarrow> nat \<Rightarrow> rgba list \<Rightarrow> real \<Rightarrow> coord list \<Rightarrow> coord list \<Rightarrow> fill_state
     \<Rightarrow> error + fill_state" where
  "bfs_loop w h seed_colors threshold nbrs [] st = Inr st"
| "bfs_loop w h seed_colors threshold nbrs (c # queue) st =
     (case resolve w h c of
        None \<Rightarrow> Inl IndexError
      | Some p \<Rightarrow>
          if p \<in> visited st then bfs_loop w h seed_colors threshold nbrs queue st
          else if \<not> any_within seed_colors (pix st p) threshold
          then bfs_loop w h seed_colors threshold nbrs queue
                 (st\<lparr>visited := insert p (visited st)\<rparr>)
          else bfs_loop w h seed_colors threshold nbrs
                 (queue @ enqueue_neighbors w h nbrs c)
                 (st\<lparr>visited := insert p (visited st),
                     pix := (pix st)(p := transparent),
                     removed := removed st + 1\<rparr>))"
  by pat_completeness auto

text \<open>
  The loop terminates: an iteration either marks a cell of the grid that was not marked
  before, or leaves the marks alone and shortens the queue.
\<close>

termination bfs_loop
proof (relation "measures [\<lambda>(w, h, scs, t, nbrs, q, st). card (grid w h - visited st),
                           \<lambda>(w, h, scs, t, nbrs, q, st). length q]", goal_cases)
  case 1
  show ?case by simp
next
  case (2 w h seed_colors threshold nbrs c queue st p)
  then show ?case by simp
next
  case (3 w h seed_colors threshold nbrs c queue st p)
  then have "p \<in> grid w h" and "p \<notin> visited st"
    by (auto simp: resolve_def py_index_def grid_def split: option.splits if_splits)
  then have "grid w h - insert p (visited st) \<subset> grid w h - visited st"
    by auto
  then have "card (grid w h - insert p (visited st)) < card (grid w h - visited st)"
    by (intro psubset_card_mono) (simp_all add: grid_def)
  then show ?case by simp
next
  case (4 w h seed_colors threshold nbrs c queue st p)
  then have "p \<in> grid w h" and "p \<notin> visited st"
    by (auto simp: resolve_def py_index_def grid_def split: option.splits if_splits)
  then have "grid w h - insert p (visited st) \<subset> grid w h - visited st"
    by auto
  then have "card (grid w h - insert p (visited st)) < card (grid w h - visited st)"
    by (intro psubset_card_mono) (simp_all add: grid_def)
  then show ?case by simp
qed

text \<open>
  \<open>floodfill_remove\<close>: the seed colours are sampled first (a set of the tuples, made a
  list: duplicates dropped, the order immaterial to \<open>any\<close>), the queue starts as the
  seeds, and the image comes back with the counter.
\<close>

definition floodfill_remove ::
  "image \<Rightarrow> coord list \<Rightarrow> real \<Rightarrow> bool \<Rightarrow> error + (image \<times> nat)" where
  "floodfill_remove img seeds threshold eight_way =
     (case sample_colors img seeds of
        Inl e \<Rightarrow> Inl e
      | Inr cs \<Rightarrow>
          (case bfs_loop (width img) (height img) (remdups cs) threshold
                  (neighbors eight_way) seeds
                  \<lparr>visited = {}, pix = pixels img, removed = 0\<rparr> of
             Inl e \<Rightarrow> Inl e
           | Inr st \<Rightarrow> Inr (img\<lparr>pixels := pix st\<rparr>, removed st)))"

section \<open>Global purge (libs/removal.py, global\_purge)\<close>

text \<open>
  \<open>for y in range(height): for x in range(width): ...\<close>: the coordinates in raster
  order, and the body of the loop as one step on the pixel access object and the
  counter.
\<close>

definition raster :: "nat \<Rightarrow> nat \<Rightarrow> coord list" where
  "raster w h = concat (map (\<lambda>y. map (\<lambda>x. (int x, int y)) [0..<w]) [0..<h])"

definition purge_step ::
  "rgba list \<Rightarrow> real \<Rightarrow> coord \<Rightarrow> (coord \<Rightarrow> rgba) \<times> nat \<Rightarrow> (coord \<Rightarrow> rgba) \<times> nat" where
  "purge_step seed_colors threshold c s =
     (if any_within seed_colors (fst s c) threshold
      then ((fst s)(c := transparent), snd s + 1)
      else s)"

definition global_purge :: "image \<Rightarrow> coord list \<Rightarrow> real \<Rightarrow> error + (image \<times> nat)" where
  "global_purge img seeds threshold =
     (case sample_colors img seeds of
        Inl e \<Rightarrow> Inl e
      | Inr seed_colors \<Rightarrow>
          (let s = fold (purge_step seed_colors threshold)
                     (raster (width img) (height img)) (pixels img, 0)
           in Inr (img\<lparr>pixels := fst s\<rparr>, snd s)))"

section \<open>Edge trimming (libs/common.py, trim\_transparent)\<close>

text \<open>
  \<open>trim_transparent\<close> asks the image library for the bounding box (\<open>image.getbbox()\<close>)
  and for the cropped copy (\<open>image.crop(bbox)\<close>). A box is (left, upper, right, lower),
  right and lower exclusive.
\<close>

type_synonym bbox = "int \<times> int \<times> int \<times> int"

definition nonzero_alpha :: "image \<Rightarrow> nat \<Rightarrow> nat \<Rightarrow> bool" where
  "nonzero_alpha img x y = (case pixels img (int x, int y) of (r, g, b, a) \<Rightarrow> a \<noteq> 0)"

text \<open>
  Modelled from the spec: \<open>Image.getbbox\<close> belongs to the image library and is not in
  the repository. Section 4.4 of the specification: the smallest axis-aligned bounding
  box containing every pixel with nonzero alpha, and no box when the whole buffer is
  transparent. It is computed here from the columns and rows that hold a pixel of
  nonzero alpha: the first and last such column, the first and last such row.
\<close>

definition content_columns :: "image \<Rightarrow> nat list" where
  "content_columns img =
     filter (\<lambda>x. list_ex (\<lambda>y. nonzero_alpha img x y) [0..<height img]) [0..<width img]"

definition content_rows :: "image \<Rightarrow> nat list" where
  "content_rows img =
     filter (\<lambda>y. list_ex (\<lambda>x. nonzero_alpha img x y) [0..<width img]) [0..<height img]"

definition getbbox :: "image \<Rightarrow> bbox option" where
  "getbbox img =
     (let xs = content_columns img; ys = content_rows img
      in if xs = [] \<or> ys = [] then None
         else Some (int (hd xs), int (hd ys), int (last xs) + 1, int (last ys) + 1))"

text \<open>
  Modelled from the spec: \<open>Image.crop\<close> belongs to the image library and is not in the
  repository. Section 4.4: a new buffer containing exactly the pixels inside the box,
  \<open>x\<close> in [left, right) and \<open>y\<close> in [upper, lower). The new buffer has no pixel
  outside its own extent; the accessor is given the value (0,0,0,0) there.
\<close>

definition crop :: "image \<Rightarrow> bbox \<Rightarrow> image" where
  "crop img box =
     (case box of (left, upper, right, lower) \<Rightarrow>
        \<lparr>width = nat (right - left), height = nat (lower - upper),
         pixels = (\<lambda>c. if 0 \<le> fst c \<and> fst c < right - left \<and> 0 \<le> snd c \<and> snd c < lower - upper
                        then pixels img (fst c + left, snd c + upper) else transparent)\<rparr>)"

text \<open>\<open>trim_transparent\<close> itself, from libs/common.py.\<close>

definition trim_transparent :: "image \<Rightarrow> image \<times> bbox" where
  "trim_transparent img =
     (case getbbox img of
        None \<Rightarrow> (img, (0, 0, int (width img), int (height img)))
      | Some box \<Rightarrow> (crop img box, box))"

section \<open>Seed coordinates (libs/common.py, parse\_seed)\<close>






































section \<open>The vocabulary of the claims\<close>

text \<open>
  The words of the claims about the removal engine. A pixel matches when its original
  colour is within the threshold of the colour at some seed. Two pixels are
  grid-adjacent when they differ by one step along an axis (4-way) or by one step along
  an axis or a diagonal (8-way). A pixel is seed-connected when a chain of grid-adjacent
  matching pixels of the buffer leads to it from a matching seed.
\<close>

definition seed_match :: "image \<Rightarrow> coord list \<Rightarrow> real \<Rightarrow> coord \<Rightarrow> bool" where
  "seed_match img seeds threshold p =
     list_ex (\<lambda>s. color_distance (pixels img s) (pixels img p) \<le> threshold) seeds"

definition adjacent :: "bool \<Rightarrow> coord \<Rightarrow> coord \<Rightarrow> bool" where
  "adjacent eight_way p q =
     (if eight_way then max \<bar>fst q - fst p\<bar> \<bar>snd q - snd p\<bar> = 1
      else \<bar>fst q - fst p\<bar> + \<bar>snd q - snd p\<bar> = 1)"

inductive seed_connected :: "image \<Rightarrow> coord list \<Rightarrow> real \<Rightarrow> bool \<Rightarrow> coord \<Rightarrow> bool"
  for img :: image and seeds :: "coord list" and threshold :: real and eight_way :: bool where
  at_seed: "s \<in> set seeds \<Longrightarrow> seed_match img seeds threshold s
     \<Longrightarrow> seed_connected img seeds threshold eight_way s"
| by_step: "seed_connected img seeds threshold eight_way p \<Longrightarrow> adjacent eight_way p q
     \<Longrightarrow> q \<in> grid (width img) (height img) \<Longrightarrow> seed_match img seeds threshold q
     \<Longrightarrow> seed_connected img seeds threshold eight_way q"

definition matching :: "image \<Rightarrow> coord list \<Rightarrow> real \<Rightarrow> coord set" where
  "matching img seeds threshold =
     {p \<in> grid (width img) (height img). seed_match img seeds threshold p}"

definition region :: "image \<Rightarrow> coord list \<Rightarrow> real \<Rightarrow> bool \<Rightarrow> coord set" where
  "region img seeds threshold eight_way = {p. seed_connected img seeds threshold eight_way p}"

text \<open>What a call returned: the value of one pixel of the buffer, and the count.\<close>

definition pixel_after :: "error + image \<times> nat \<Rightarrow> coord \<Rightarrow> rgba option" where
  "pixel_after r p = (case r of Inl e \<Rightarrow> None | Inr (img, n) \<Rightarrow> Some (pixels img p))"

definition count_after :: "error + image \<times> nat \<Rightarrow> nat option" where
  "count_after r = (case r of Inl e \<Rightarrow> None | Inr (img, n) \<Rightarrow> Some n)"

text \<open>
  The vocabulary of the claims about trimming: the buffer has a pixel of nonzero alpha;
  a box contains every pixel of nonzero alpha; each side of a box touches such a pixel.
\<close>

definition has_content :: "image \<Rightarrow> bool" where
  "has_content img = list_ex (\<lambda>x. list_ex (\<lambda>y. nonzero_alpha img x y) [0..<height img]) [0..<width img]"

definition encloses :: "image \<Rightarrow> bbox \<Rightarrow> bool" where
  "encloses img box =
     (case box of (left, upper, right, lower) \<Rightarrow>
        \<forall>x < width img. \<forall>y < height img. nonzero_alpha img x y \<longrightarrow>
          left \<le> int x \<and> int x < right \<and> upper \<le> int y \<and> int y < lower)"

definition touches :: "image \<Rightarrow> bbox \<Rightarrow> bool" where
  "touches img box =
     (case box of (left, upper, right, lower) \<Rightarrow>
        (\<exists>x < width img. \<exists>y < height img. nonzero_alpha img x y \<and> int x = left) \<and>
        (\<exists>x < width img. \<exists>y < height img. nonzero_alpha img x y \<and> int x = right - 1) \<and>
        (\<exists>x < width img. \<exists>y < height img. nonzero_alpha img x y \<and> int y = upper) \<and>
        (\<exists>x < width img. \<exists>y < height img. nonzero_alpha img x y \<and> int y = lower - 1))"





section \<open>Invariant of the flood-fill loop\<close>

text \<open>
  For the proof about the loop: the set reached from a set of seeds through a list of
  offsets inside a set of matching cells, and the invariant of the loop over the queue
  and the state.
\<close>

inductive_set flood :: "coord set \<Rightarrow> coord list \<Rightarrow> coord set \<Rightarrow> coord set"
  for M :: "coord set" and nbrs :: "coord list" and S :: "coord set" where
  flood_seed: "s \<in> S \<Longrightarrow> s \<in> M \<Longrightarrow> s \<in> flood M nbrs S"
| flood_step: "p \<in> flood M nbrs S \<Longrightarrow> d \<in> set nbrs \<Longrightarrow>
     (fst p + fst d, snd p + snd d) \<in> M \<Longrightarrow> (fst p + fst d, snd p + snd d) \<in> flood M nbrs S"

definition fill_inv ::
  "nat \<Rightarrow> nat \<Rightarrow> coord set \<Rightarrow> coord list \<Rightarrow> coord set \<Rightarrow> (coord \<Rightarrow> rgba)
     \<Rightarrow> coord list \<Rightarrow> fill_state \<Rightarrow> bool" where
  "fill_inv w h M nbrs S P0 q st =
     (set q \<subseteq> grid w h \<and> visited st \<subseteq> grid w h \<and>
      pix st = (\<lambda>p. if p \<in> visited st \<and> p \<in> M then transparent else P0 p) \<and>
      removed st = card (visited st \<inter> M) \<and>
      visited st \<inter> M \<subseteq> flood M nbrs S \<and>
      set q \<inter> M \<subseteq> flood M nbrs S \<and>
      S \<inter> M \<subseteq> visited st \<union> set q \<and>
      (\<forall>p \<in> visited st \<inter> M. set (enqueue_neighbors w h nbrs p) \<subseteq> visited st \<union> set q))"

section \<open>Example buffers\<close>

definition boundary_image :: image where
  "boundary_image = \<lparr>width = 3, height = 1,
     pixels = (\<lambda>c. if c = (1, 0) then (0, 0, 0, 255)
                    else if c = (2, 0) then (252, 255, 255, 255)
                    else (255, 255, 255, 255))\<rparr>"


definition clear_image :: image where
  "clear_image = \<lparr>width = 2, height = 1, pixels = (\<lambda>c. (0, 0, 0, 0))\<rparr>"


definition dot_image :: image where
  "dot_image = \<lparr>width = 4, height = 5,
     pixels = (\<lambda>c. if c = (2, 3) then (10, 20, 30, 255) else (0, 0, 0, 0))\<rparr>"

section \<open>Lemmas about the flood-fill loop\<close>

lemma finite_grid: "finite (grid w h)"
  by (simp add: grid_def)

lemma resolve_id: "c \<in> grid w h \<Longrightarrow> resolve w h c = Some c"
  by (auto simp: resolve_def py_index_def grid_def mem_Times_iff)

lemma in_bounds_grid: "in_bounds w h c \<longleftrightarrow> c \<in> grid w h"
  by (auto simp: in_bounds_def grid_def mem_Times_iff)

lemma enqueue_in_grid: "set (enqueue_neighbors w h nbrs c) \<subseteq> grid w h"
  by (auto simp: enqueue_neighbors_def in_bounds_grid)

lemma inv_skip:
  assumes "fill_inv w h M nbrs S P0 (c # q) st" "c \<in> visited st"
  shows "fill_inv w h M nbrs S P0 q st"
  using assms unfolding fill_inv_def by auto

lemma inv_mark:
  assumes "fill_inv w h M nbrs S P0 (c # q) st" "c \<notin> visited st" "c \<notin> M"
  shows "fill_inv w h M nbrs S P0 q (st\<lparr>visited := insert c (visited st)\<rparr>)"
  using assms unfolding fill_inv_def by (auto simp: fun_eq_iff)

lemma inv_remove:
  assumes "fill_inv w h M nbrs S P0 (c # q) st" "c \<notin> visited st" "c \<in> M" "M \<subseteq> grid w h"
  shows "fill_inv w h M nbrs S P0 (q @ enqueue_neighbors w h nbrs c)
           (st\<lparr>visited := insert c (visited st), pix := (pix st)(c := transparent),
               removed := removed st + 1\<rparr>)"
proof -
  have fin: "finite (visited st \<inter> M)"
    using assms(4) finite_grid [of w h] by (meson finite_Int finite_subset)
  have cF: "c \<in> flood M nbrs S"
    using assms(1,3) unfolding fill_inv_def by auto
  have nb: "set (enqueue_neighbors w h nbrs c) \<inter> M \<subseteq> flood M nbrs S"
    using cF by (auto simp: enqueue_neighbors_def intro: flood_step)
  have card: "card (insert c (visited st) \<inter> M) = removed st + 1"
    using assms(1,2,3) fin unfolding fill_inv_def by simp
  show ?thesis
    using assms(1,2,3) cF nb card enqueue_in_grid [of w h nbrs c]
    unfolding fill_inv_def by (auto simp: fun_eq_iff)
qed

lemma bfs_loop_inv:
  assumes "fill_inv w h M nbrs S P0 q st"
    and "M = {p \<in> grid w h. any_within scs (P0 p) t}"
  shows "\<exists>st'. bfs_loop w h scs t nbrs q st = Inr st' \<and> fill_inv w h M nbrs S P0 [] st'"
  using assms
proof (induction w h scs t nbrs q st rule: bfs_loop.induct)
  case (1 w h seed_colors threshold nbrs st)
  then show ?case by simp
next
  case (2 w h seed_colors threshold nbrs c queue st)
  have cg: "c \<in> grid w h"
    using "2.prems"(1) unfolding fill_inv_def by simp
  then have res: "resolve w h c = Some c" by (rule resolve_id)
  have Mg: "M \<subseteq> grid w h" using "2.prems"(2) by auto
  show ?case
  proof (cases "c \<in> visited st")
    case True
    from inv_skip [OF "2.prems"(1) True] "2.IH"(1) [OF res True _ "2.prems"(2)] res True
    show ?thesis by simp
  next
    case False
    have pixc: "pix st c = P0 c"
      using "2.prems"(1) False unfolding fill_inv_def by simp
    show ?thesis
    proof (cases "any_within seed_colors (pix st c) threshold")
      case no: False
      then have "c \<notin> M" using pixc "2.prems"(2) by simp
      from inv_mark [OF "2.prems"(1) False this]
        "2.IH"(2) [OF res False _ _ "2.prems"(2)] no res False
      show ?thesis by simp
    next
      case yes: True
      then have "c \<in> M" using pixc cg "2.prems"(2) by simp
      from inv_remove [OF "2.prems"(1) False this Mg]
        "2.IH"(3) [OF res False _ _ "2.prems"(2)] yes res False
      show ?thesis by simp
    qed
  qed
qed

lemma inv_final:
  assumes "fill_inv w h M nbrs S P0 [] st" "M \<subseteq> grid w h"
  shows "visited st \<inter> M = flood M nbrs S"
proof
  show "visited st \<inter> M \<subseteq> flood M nbrs S"
    using assms unfolding fill_inv_def by simp
  show "flood M nbrs S \<subseteq> visited st \<inter> M"
  proof
    fix p assume "p \<in> flood M nbrs S"
    then show "p \<in> visited st \<inter> M"
    proof (induction rule: flood.induct)
      case (flood_seed s)
      then show ?case using assms(1) unfolding fill_inv_def by auto
    next
      case (flood_step p d)
      let ?q = "(fst p + fst d, snd p + snd d)"
      have "?q \<in> grid w h" using flood_step assms(2) by auto
      then have "?q \<in> set (enqueue_neighbors w h nbrs p)"
        using flood_step by (auto simp: enqueue_neighbors_def in_bounds_grid)
      then show ?case using assms(1) flood_step unfolding fill_inv_def by auto
    qed
  qed
qed

section \<open>The removed region and the result of flood fill\<close>

lemma sample_colors_in_grid:
  "set seeds \<subseteq> grid (width img) (height img)
     \<Longrightarrow> sample_colors img seeds = Inr (map (pixels img) seeds)"
  by (induction seeds) (simp_all add: get_pixel_def resolve_id)

lemma any_within_seed_match:
  "any_within (remdups (map (pixels img) seeds)) (pixels img p) t = seed_match img seeds t p"
  "any_within (map (pixels img) seeds) (pixels img p) t = seed_match img seeds t p"
  by (auto simp: any_within_def seed_match_def list_ex_iff)

lemma offset_in_list:
  "(\<exists>d \<in> S. q = (fst p + fst d, snd p + snd d)) \<longleftrightarrow> (fst q - fst p, snd q - snd p) \<in> S"
  for p q :: coord
proof
  assume "\<exists>d \<in> S. q = (fst p + fst d, snd p + snd d)"
  then obtain d where d: "d \<in> S" and q: "q = (fst p + fst d, snd p + snd d)" by blast
  from q have "(fst q - fst p, snd q - snd p) = d" by (cases d) simp
  with d show "(fst q - fst p, snd q - snd p) \<in> S" by simp
next
  assume "(fst q - fst p, snd q - snd p) \<in> S"
  moreover have "q = (fst p + fst (fst q - fst p, snd q - snd p),
      snd p + snd (fst q - fst p, snd q - snd p))" by simp
  ultimately show "\<exists>d \<in> S. q = (fst p + fst d, snd p + snd d)" by blast
qed

lemma abs_le_one: "\<bar>a\<bar> \<le> 1 \<longleftrightarrow> a = -1 \<or> a = 0 \<or> a = 1" for a :: int
  by (simp add: abs_le_iff) linarith

lemma four_way_offsets:
  "\<bar>a\<bar> + \<bar>b\<bar> = 1 \<longleftrightarrow> (a, b) \<in> set (neighbors False)" for a b :: int
proof
  assume h: "\<bar>a\<bar> + \<bar>b\<bar> = 1"
  have "\<bar>a\<bar> \<le> 1" and "\<bar>b\<bar> \<le> 1"
    using h abs_ge_zero [of a] abs_ge_zero [of b] by linarith+
  then have "a = -1 \<or> a = 0 \<or> a = 1" and "b = -1 \<or> b = 0 \<or> b = 1"
    by (simp_all only: abs_le_one)
  with h show "(a, b) \<in> set (neighbors False)"
    by (elim disjE) (simp_all add: neighbors_def)
next
  assume "(a, b) \<in> set (neighbors False)"
  then show "\<bar>a\<bar> + \<bar>b\<bar> = 1"
    by (auto simp: neighbors_def)
qed

lemma eight_way_offsets:
  "max \<bar>a\<bar> \<bar>b\<bar> = 1 \<longleftrightarrow> (a, b) \<in> set (neighbors True)" for a b :: int
proof
  assume h: "max \<bar>a\<bar> \<bar>b\<bar> = 1"
  have "\<bar>a\<bar> \<le> 1" and "\<bar>b\<bar> \<le> 1"
    using h max.cobounded1 [of "\<bar>a\<bar>" "\<bar>b\<bar>"] max.cobounded2 [of "\<bar>b\<bar>" "\<bar>a\<bar>"] by simp_all
  then have "a = -1 \<or> a = 0 \<or> a = 1" and "b = -1 \<or> b = 0 \<or> b = 1"
    by (simp_all only: abs_le_one)
  with h show "(a, b) \<in> set (neighbors True)"
    by (elim disjE) (simp_all add: neighbors_def)
next
  assume "(a, b) \<in> set (neighbors True)"
  then show "max \<bar>a\<bar> \<bar>b\<bar> = 1"
    by (auto simp: neighbors_def)
qed

lemma adjacent_neighbors:
  "adjacent e p q \<longleftrightarrow> (\<exists>d \<in> set (neighbors e). q = (fst p + fst d, snd p + snd d))"
  unfolding offset_in_list
  by (cases e) (simp_all only: adjacent_def four_way_offsets eight_way_offsets if_True if_False)

lemma matching_in_grid: "matching img seeds t \<subseteq> grid (width img) (height img)"
  by (auto simp: matching_def)

lemma seed_connected_matching:
  "seed_connected img seeds t e p \<Longrightarrow> set seeds \<subseteq> grid (width img) (height img)
     \<Longrightarrow> p \<in> matching img seeds t"
  by (induction rule: seed_connected.induct) (auto simp: matching_def)

lemma region_flood:
  assumes "set seeds \<subseteq> grid (width img) (height img)"
  shows "region img seeds t e = flood (matching img seeds t) (neighbors e) (set seeds)"
proof (intro set_eqI iffI)
  fix p assume "p \<in> region img seeds t e"
  then have "seed_connected img seeds t e p" by (simp add: region_def)
  then show "p \<in> flood (matching img seeds t) (neighbors e) (set seeds)"
  proof (induction rule: seed_connected.induct)
    case (at_seed s)
    then show ?case using assms by (auto simp: matching_def intro: flood_seed)
  next
    case (by_step p q)
    then obtain d where "d \<in> set (neighbors e)" "q = (fst p + fst d, snd p + snd d)"
      by (auto simp: adjacent_neighbors)
    with by_step show ?case by (auto simp: matching_def intro: flood_step)
  qed
next
  fix p assume "p \<in> flood (matching img seeds t) (neighbors e) (set seeds)"
  then have "seed_connected img seeds t e p"
  proof (induction rule: flood.induct)
    case (flood_seed s)
    then show ?case by (auto simp: matching_def intro: at_seed)
  next
    case (flood_step p d)
    then have "adjacent e p (fst p + fst d, snd p + snd d)"
      by (auto simp: adjacent_neighbors)
    with flood_step show ?case by (auto simp: matching_def intro: by_step)
  qed
  then show "p \<in> region img seeds t e" by (simp add: region_def)
qed

lemma region_subset_matching:
  "set seeds \<subseteq> grid (width img) (height img) \<Longrightarrow> region img seeds t e \<subseteq> matching img seeds t"
  by (auto simp: region_def dest: seed_connected_matching)

lemma fill_inv_init:
  assumes "set seeds \<subseteq> grid w h"
  shows "fill_inv w h M nbrs (set seeds) P0 seeds \<lparr>visited = {}, pix = P0, removed = 0\<rparr>"
  using assms unfolding fill_inv_def by (auto intro: flood_seed)

lemma floodfill_result:
  assumes "set seeds \<subseteq> grid (width img) (height img)"
  shows "floodfill_remove img seeds t e =
     Inr (img\<lparr>pixels := (\<lambda>p. if p \<in> region img seeds t e then transparent else pixels img p)\<rparr>,
          card (region img seeds t e))"
proof -
  let ?w = "width img" and ?h = "height img"
  let ?scs = "remdups (map (pixels img) seeds)"
  let ?M = "matching img seeds t"
  let ?F = "flood ?M (neighbors e) (set seeds)"
  have M: "?M = {p \<in> grid ?w ?h. any_within ?scs (pixels img p) t}"
    by (simp add: matching_def any_within_seed_match)
  from bfs_loop_inv [OF fill_inv_init [OF assms] M]
  obtain st where run: "bfs_loop ?w ?h ?scs t (neighbors e) seeds
        \<lparr>visited = {}, pix = pixels img, removed = 0\<rparr> = Inr st"
    and inv: "fill_inv ?w ?h ?M (neighbors e) (set seeds) (pixels img) [] st"
    by blast
  have vis: "visited st \<inter> ?M = ?F"
    using inv matching_in_grid by (rule inv_final)
  have F: "?F = region img seeds t e"
    using assms by (simp add: region_flood)
  have "pix st = (\<lambda>p. if p \<in> visited st \<inter> ?M then transparent else pixels img p)"
    using inv unfolding fill_inv_def by simp
  moreover have "removed st = card (visited st \<inter> ?M)"
    using inv unfolding fill_inv_def by simp
  ultimately show ?thesis
    using run vis F by (simp add: floodfill_remove_def sample_colors_in_grid [OF assms])
qed

section \<open>The purge loop\<close>







section \<open>Claims about the removal engine\<close>

lemma sq_distance_nonneg: "0 \<le> sq_distance a b"
  by (simp add: sq_distance_def split: prod.splits)

lemma color_distance_nonneg: "0 \<le> color_distance a b"
  by (simp add: color_distance_def sq_distance_nonneg)

lemma color_distance_le_iff:
  "color_distance a b \<le> t \<longleftrightarrow> 0 \<le> t \<and> real_of_int (sq_distance a b) \<le> t\<^sup>2"
proof (cases "0 \<le> t")
  case True
  then have "sqrt (real_of_int (sq_distance a b)) \<le> t
      \<longleftrightarrow> sqrt (real_of_int (sq_distance a b)) \<le> sqrt (t\<^sup>2)"
    by simp
  then show ?thesis using True by (simp only: color_distance_def real_sqrt_le_iff) simp
next
  case False
  with color_distance_nonneg [of a b] show ?thesis by simp
qed


lemmas run_simps =
  pixel_after_def count_after_def floodfill_remove_def global_purge_def get_pixel_def
  resolve_def py_index_def any_within_def color_distance_le_iff sq_distance_def
  enqueue_neighbors_def neighbors_def in_bounds_def transparent_def raster_def purge_step_def
  upt_rec numeral_nat


lemma card_grid: "card (grid w h) = w * h"
  by (simp add: grid_def card_cartesian_product)

lemma bfs_loop_completes:
  "set q \<subseteq> grid w h \<Longrightarrow> \<exists>st'. bfs_loop w h scs t nbrs q st = Inr st'"
proof (induction w h scs t nbrs q st rule: bfs_loop.induct)
  case (1 w h seed_colors threshold nbrs st)
  then show ?case by simp
next
  case (2 w h seed_colors threshold nbrs c queue st)
  then have res: "resolve w h c = Some c" by (simp add: resolve_id)
  have q: "set queue \<subseteq> grid w h"
    and q': "set (queue @ enqueue_neighbors w h nbrs c) \<subseteq> grid w h"
    using "2.prems" enqueue_in_grid [of w h nbrs c] by auto
  show ?case
  proof (cases "c \<in> visited st")
    case True
    with "2.IH"(1) [OF res True q] res show ?thesis by simp
  next
    case False
    show ?thesis
    proof (cases "any_within seed_colors (pix st c) threshold")
      case no: False
      with "2.IH"(2) [OF res False _ q] res False show ?thesis by simp
    next
      case yes: True
      with "2.IH"(3) [OF res False _ q'] res False show ?thesis by simp
    qed
  qed
qed








text \<open>
  Claim C7. For in-bounds seeds the flood-fill loop runs to completion: started on the
  seeds with nothing visited it returns a final state (for any list of seed colours),
  never an index error, and the whole call returns a count of at most width times
  height, each pixel being marked and counted at most once. That the recursion of
  \<open>bfs_loop\<close> is well-founded on every input is its termination proof above.
\<close>

theorem floodfill_runs_to_completion:
  assumes "set seeds \<subseteq> grid (width img) (height img)"
  shows "(\<exists>st. bfs_loop (width img) (height img) seed_colors threshold (neighbors eight_way) seeds
             \<lparr>visited = {}, pix = pixels img, removed = 0\<rparr> = Inr st) \<and>
         (\<exists>img' n. floodfill_remove img seeds threshold eight_way = Inr (img', n) \<and>
             n \<le> width img * height img)"
proof -
  have "card (region img seeds threshold eight_way) \<le> card (grid (width img) (height img))"
    using region_subset_matching [OF assms] matching_in_grid finite_grid
    by (meson card_mono subset_trans)
  then show ?thesis
    using bfs_loop_completes [OF assms]
    by (simp add: floodfill_result [OF assms] card_grid)
qed

theorem floodfill_runs_to_completion_witness:
  "set [(0, 0), (2, 0)] \<subseteq> grid (width boundary_image) (height boundary_image) \<and>
   (\<exists>img' n. floodfill_remove boundary_image [(0, 0), (2, 0)] 441 True = Inr (img', n) \<and> n \<le> 3) \<and>
   count_after (floodfill_remove boundary_image [(0, 0), (2, 0)] 441 True) = Some 3"
proof -
  have sub: "set [(0, 0), (2, 0)] \<subseteq> grid (width boundary_image) (height boundary_image)"
    by (simp add: boundary_image_def grid_def)
  have "width boundary_image * height boundary_image = 3"
    by (simp add: boundary_image_def)
  with floodfill_runs_to_completion [OF sub, of _ 441 True]
  have "\<exists>img' n. floodfill_remove boundary_image [(0, 0), (2, 0)] 441 True = Inr (img', n) \<and> n \<le> 3"
    by simp
  moreover have "count_after (floodfill_remove boundary_image [(0, 0), (2, 0)] 441 True) = Some 3"
    by (simp add: run_simps boundary_image_def)
  ultimately show ?thesis using sub by blast
qed

text \<open>
  Claim C10. With an empty seed list both flood fill and global purge return without an
  error, with the buffer as it was and a count of 0.
\<close>

theorem empty_seed_list_changes_nothing:
  "floodfill_remove img [] threshold eight_way = Inr (img, 0) \<and>
   global_purge img [] threshold = Inr (img, 0)"
proof -
  have "fold (purge_step [] threshold) cs s = s" for cs s
    by (induction cs) (simp_all add: purge_step_def any_within_def)
  then show ?thesis
    by (simp add: floodfill_remove_def global_purge_def)
qed









section \<open>Lemmas about the bounding box\<close>

lemma filter_upt_props:
  assumes "filter P [0..<n] \<noteq> []"
  shows "P (hd (filter P [0..<n]))" "hd (filter P [0..<n]) < n"
    "P (last (filter P [0..<n]))" "last (filter P [0..<n]) < n"
    "hd (filter P [0..<n]) \<le> last (filter P [0..<n])"
    "\<And>i. i < n \<Longrightarrow> P i \<Longrightarrow> hd (filter P [0..<n]) \<le> i \<and> i \<le> last (filter P [0..<n])"
proof -
  let ?xs = "filter P [0..<n]"
  have s: "sorted ?xs" by (simp add: sorted_wrt_filter)
  have h: "hd ?xs \<in> set ?xs" using assms by (rule hd_in_set)
  have l: "last ?xs \<in> set ?xs" using assms by (rule last_in_set)
  from h show "P (hd ?xs)" "hd ?xs < n" by simp_all
  from l show "P (last ?xs)" "last ?xs < n" by simp_all
  have bounds: "hd ?xs \<le> i \<and> i \<le> last ?xs" if "i \<in> set ?xs" for i
  proof -
    obtain y ys where xs: "?xs = y # ys" using assms by (cases ?xs) auto
    have "hd ?xs \<le> i" using s that unfolding xs by auto
    moreover have "i \<le> last ?xs"
    proof -
      from that [unfolded in_set_conv_nth]
      obtain k where k: "k < length ?xs" and i: "i = ?xs ! k"
        by blast
      have "?xs ! k \<le> ?xs ! (length ?xs - 1)"
        using s k by (intro sorted_nth_mono) simp_all
      then show ?thesis using i assms by (simp add: last_conv_nth)
    qed
    ultimately show ?thesis by simp
  qed
  from bounds [OF h] show "hd ?xs \<le> last ?xs" by simp
  show "\<And>i. i < n \<Longrightarrow> P i \<Longrightarrow> hd ?xs \<le> i \<and> i \<le> last ?xs"
    using bounds by simp
qed

lemma has_content_iff:
  "has_content img \<longleftrightarrow> (\<exists>x < width img. \<exists>y < height img. nonzero_alpha img x y)"
  unfolding has_content_def list_ex_iff by (simp add: Bex_def)

lemma content_columns_empty: "content_columns img = [] \<longleftrightarrow> \<not> has_content img"
  by (auto simp: content_columns_def has_content_iff filter_empty_conv list_ex_iff)

lemma content_rows_empty: "content_rows img = [] \<longleftrightarrow> \<not> has_content img"
  by (auto simp: content_rows_def has_content_iff filter_empty_conv list_ex_iff)

lemma getbbox_None: "getbbox img = None \<longleftrightarrow> \<not> has_content img"
  by (simp add: getbbox_def Let_def content_columns_empty content_rows_empty)

lemma getbbox_Some:
  assumes "getbbox img = Some box"
  shows "encloses img box" and "touches img box"
proof -
  let ?P = "\<lambda>x. list_ex (\<lambda>y. nonzero_alpha img x y) [0..<height img]"
  let ?Q = "\<lambda>y. list_ex (\<lambda>x. nonzero_alpha img x y) [0..<width img]"
  let ?xs = "filter ?P [0..<width img]" and ?ys = "filter ?Q [0..<height img]"
  from assms have ne1: "?xs \<noteq> []" and ne2: "?ys \<noteq> []"
    by (auto simp: getbbox_def Let_def content_columns_def content_rows_def split: if_splits)
  with assms have bx: "box = (int (hd ?xs), int (hd ?ys), int (last ?xs) + 1, int (last ?ys) + 1)"
    by (auto simp: getbbox_def Let_def content_columns_def content_rows_def)
  note X = filter_upt_props [OF ne1]
  note Y = filter_upt_props [OF ne2]
  show "encloses img box"
    unfolding encloses_def bx prod.case
  proof (intro allI impI)
    fix x y assume xy: "x < width img" "y < height img" "nonzero_alpha img x y"
    then have "?P x" and "?Q y" by (auto simp: list_ex_iff)
    with X(6) [of x] Y(6) [of y] xy
    show "int (hd ?xs) \<le> int x \<and> int x < int (last ?xs) + 1 \<and>
        int (hd ?ys) \<le> int y \<and> int y < int (last ?ys) + 1"
      by simp
  qed
  have cx: "\<exists>x < width img. \<exists>y < height img. nonzero_alpha img x y \<and> x = a"
    if "?P a" "a < width img" for a
  proof -
    from that(1) obtain y where "y < height img" "nonzero_alpha img a y"
      by (auto simp: list_ex_iff)
    with that(2) show ?thesis by blast
  qed
  have cy: "\<exists>x < width img. \<exists>y < height img. nonzero_alpha img x y \<and> y = a"
    if "?Q a" "a < height img" for a
  proof -
    from that(1) obtain x where "x < width img" "nonzero_alpha img x a"
      by (auto simp: list_ex_iff)
    with that(2) show ?thesis by blast
  qed
  show "touches img box"
    unfolding touches_def bx
    using cx [OF X(1,2)] cx [OF X(3,4)] cy [OF Y(1,2)] cy [OF Y(3,4)]
    by simp
qed

lemma bbox_unique:
  assumes "encloses img b1" "touches img b1" "encloses img b2" "touches img b2"
  shows "b1 = b2"
proof -
  obtain l1 t1 r1 w1 where b1: "b1 = (l1, t1, r1, w1)" by (cases b1) auto
  obtain l2 t2 r2 w2 where b2: "b2 = (l2, t2, r2, w2)" by (cases b2) auto
  have le: "l \<le> l' \<and> t \<le> t' \<and> r' \<le> r \<and> w' \<le> w"
    if e: "encloses img (l, t, r, w)" and c: "touches img (l', t', r', w')" for l t r w l' t' r' w'
  proof -
    have inside: "l \<le> int x \<and> int x < r \<and> t \<le> int y \<and> int y < w"
      if "x < width img" "y < height img" "nonzero_alpha img x y" for x y
      using e that unfolding encloses_def prod.case by blast
    from c obtain x1 y1 where "x1 < width img" "y1 < height img" "nonzero_alpha img x1 y1" "int x1 = l'"
      unfolding touches_def prod.case by blast
    from inside [OF this(1,2,3)] this(4) have 1: "l \<le> l'" by simp
    from c obtain x2 y2 where "x2 < width img" "y2 < height img" "nonzero_alpha img x2 y2" "int x2 = r' - 1"
      unfolding touches_def prod.case by blast
    from inside [OF this(1,2,3)] this(4) have 2: "r' \<le> r" by simp
    from c obtain x3 y3 where "x3 < width img" "y3 < height img" "nonzero_alpha img x3 y3" "int y3 = t'"
      unfolding touches_def prod.case by blast
    from inside [OF this(1,2,3)] this(4) have 3: "t \<le> t'" by simp
    from c obtain x4 y4 where "x4 < width img" "y4 < height img" "nonzero_alpha img x4 y4" "int y4 = w' - 1"
      unfolding touches_def prod.case by blast
    from inside [OF this(1,2,3)] this(4) have 4: "w' \<le> w" by simp
    from 1 2 3 4 show ?thesis by simp
  qed
  from le [of l1 t1 r1 w1 l2 t2 r2 w2] le [of l2 t2 r2 w2 l1 t1 r1 w1] assms
  show ?thesis unfolding b1 b2 by auto
qed

lemma getbbox_eqI:
  assumes "encloses img box" "touches img box"
  shows "getbbox img = Some box"
proof -
  have "has_content img"
    using assms(2) by (cases box) (auto simp: touches_def has_content_iff)
  then obtain b where b: "getbbox img = Some b"
    using getbbox_None [of img] by (cases "getbbox img") auto
  from getbbox_Some [OF b] assms have "b = box" by (intro bbox_unique)
  with b show ?thesis by simp
qed

section \<open>Claims about trimming\<close>

lemma touches_range:
  assumes "encloses img (l, t, r, b)" "touches img (l, t, r, b)"
  shows "0 \<le> l \<and> l < r \<and> r \<le> int (width img) \<and> 0 \<le> t \<and> t < b \<and> b \<le> int (height img)"
proof -
  have inside: "l \<le> int x \<and> int x < r \<and> t \<le> int y \<and> int y < b"
    if "x < width img" "y < height img" "nonzero_alpha img x y" for x y
    using assms(1) that unfolding encloses_def prod.case by blast
  from assms(2) obtain x1 y1 where 1: "x1 < width img" "y1 < height img" "nonzero_alpha img x1 y1" "int x1 = l"
    unfolding touches_def prod.case by blast
  from assms(2) obtain x2 y2 where 2: "x2 < width img" "y2 < height img" "nonzero_alpha img x2 y2" "int x2 = r - 1"
    unfolding touches_def prod.case by blast
  from assms(2) obtain x3 y3 where 3: "x3 < width img" "y3 < height img" "nonzero_alpha img x3 y3" "int y3 = t"
    unfolding touches_def prod.case by blast
  from assms(2) obtain x4 y4 where 4: "x4 < width img" "y4 < height img" "nonzero_alpha img x4 y4" "int y4 = b - 1"
    unfolding touches_def prod.case by blast
  from inside [OF 1(1,2,3)] inside [OF 3(1,2,3)] 1 2 3 4 show ?thesis by linarith
qed

lemma touches_smallest:
  assumes "touches img (l, t, r, b)" "encloses img (l', t', r', b')"
  shows "l' \<le> l \<and> t' \<le> t \<and> r \<le> r' \<and> b \<le> b'"
proof -
  have inside: "l' \<le> int x \<and> int x < r' \<and> t' \<le> int y \<and> int y < b'"
    if "x < width img" "y < height img" "nonzero_alpha img x y" for x y
    using assms(2) that unfolding encloses_def prod.case by blast
  from assms(1) obtain x1 y1 where 1: "x1 < width img" "y1 < height img" "nonzero_alpha img x1 y1" "int x1 = l"
    unfolding touches_def prod.case by blast
  from assms(1) obtain x2 y2 where 2: "x2 < width img" "y2 < height img" "nonzero_alpha img x2 y2" "int x2 = r - 1"
    unfolding touches_def prod.case by blast
  from assms(1) obtain x3 y3 where 3: "x3 < width img" "y3 < height img" "nonzero_alpha img x3 y3" "int y3 = t"
    unfolding touches_def prod.case by blast
  from assms(1) obtain x4 y4 where 4: "x4 < width img" "y4 < height img" "nonzero_alpha img x4 y4" "int y4 = b - 1"
    unfolding touches_def prod.case by blast
  from inside [OF 1(1,2,3)] inside [OF 2(1,2,3)] inside [OF 3(1,2,3)] inside [OF 4(1,2,3)] 1(4) 2(4) 3(4) 4(4)
  show ?thesis by linarith
qed

lemma trim_with_content:
  assumes "has_content img"
  shows "\<exists>left upper right lower.
     trim_transparent img = (crop img (left, upper, right, lower), (left, upper, right, lower)) \<and>
     encloses img (left, upper, right, lower) \<and> touches img (left, upper, right, lower)"
proof -
  from assms obtain box where b: "getbbox img = Some box"
    using getbbox_None [of img] by (cases "getbbox img") auto
  obtain l t r w where box: "box = (l, t, r, w)" by (cases box) auto
  from getbbox_Some [OF b] b show ?thesis
    unfolding box by (auto simp: trim_transparent_def)
qed

lemma crop_simps:
  "width (crop img (l, t, r, b)) = nat (r - l)"
  "height (crop img (l, t, r, b)) = nat (b - t)"
  "0 \<le> x \<and> x < r - l \<and> 0 \<le> y \<and> y < b - t \<Longrightarrow> pixels (crop img (l, t, r, b)) (x, y) = pixels img (x + l, y + t)"
  by (simp_all add: crop_def)

text \<open>
  Claim C4. When the buffer has a pixel of nonzero alpha, trim returns a box within the
  buffer that contains every pixel of nonzero alpha and lies inside every box that does
  (the smallest one), and a new buffer of the size of the box holding exactly the pixels
  inside it. When every pixel has zero alpha, trim returns the buffer itself with the
  box (0, 0, width, height). When the only pixel of nonzero alpha is at (2,3), the
  result is 1 by 1 with box (2,3,3,4).
\<close>

theorem trim_smallest_box:
  "(has_content img \<longrightarrow>
      (\<exists>left upper right lower img'.
         trim_transparent img = (img', (left, upper, right, lower)) \<and>
         0 \<le> left \<and> left < right \<and> right \<le> int (width img) \<and>
         0 \<le> upper \<and> upper < lower \<and> lower \<le> int (height img) \<and>
         encloses img (left, upper, right, lower) \<and>
         (\<forall>l t r b. encloses img (l, t, r, b) \<longrightarrow>
            l \<le> left \<and> t \<le> upper \<and> right \<le> r \<and> lower \<le> b) \<and>
         width img' = nat (right - left) \<and> height img' = nat (lower - upper) \<and>
         (\<forall>x y. 0 \<le> x \<and> x < right - left \<and> 0 \<le> y \<and> y < lower - upper \<longrightarrow>
            pixels img' (x, y) = pixels img (x + left, y + upper)))) \<and>
   (\<not> has_content img \<longrightarrow>
      trim_transparent img = (img, (0, 0, int (width img), int (height img)))) \<and>
   (2 < width img \<and> 3 < height img \<and>
    (\<forall>x < width img. \<forall>y < height img. nonzero_alpha img x y \<longleftrightarrow> x = 2 \<and> y = 3) \<longrightarrow>
      (\<exists>img'. trim_transparent img = (img', (2, 3, 3, 4)) \<and>
         width img' = 1 \<and> height img' = 1 \<and> pixels img' (0, 0) = pixels img (2, 3)))"
proof (intro conjI impI)
  assume "has_content img"
  from trim_with_content [OF this] obtain l t r b where
    tr: "trim_transparent img = (crop img (l, t, r, b), (l, t, r, b))"
    and e: "encloses img (l, t, r, b)" and c: "touches img (l, t, r, b)"
    by blast
  have small: "\<forall>l' t' r' b'. encloses img (l', t', r', b') \<longrightarrow>
      l' \<le> l \<and> t' \<le> t \<and> r \<le> r' \<and> b \<le> b'"
    using touches_smallest [OF c] by blast
  show "\<exists>left upper right lower img'.
         trim_transparent img = (img', (left, upper, right, lower)) \<and>
         0 \<le> left \<and> left < right \<and> right \<le> int (width img) \<and>
         0 \<le> upper \<and> upper < lower \<and> lower \<le> int (height img) \<and>
         encloses img (left, upper, right, lower) \<and>
         (\<forall>l t r b. encloses img (l, t, r, b) \<longrightarrow>
            l \<le> left \<and> t \<le> upper \<and> right \<le> r \<and> lower \<le> b) \<and>
         width img' = nat (right - left) \<and> height img' = nat (lower - upper) \<and>
         (\<forall>x y. 0 \<le> x \<and> x < right - left \<and> 0 \<le> y \<and> y < lower - upper \<longrightarrow>
            pixels img' (x, y) = pixels img (x + left, y + upper))"
    apply (rule exI [of _ l], rule exI [of _ t], rule exI [of _ r], rule exI [of _ b])
    apply (rule exI [of _ "crop img (l, t, r, b)"])
    using tr e small touches_range [OF e c] by (simp add: crop_simps)
next
  assume "\<not> has_content img"
  then have "getbbox img = None" by (simp add: getbbox_None)
  then show "trim_transparent img = (img, (0, 0, int (width img), int (height img)))"
    by (simp add: trim_transparent_def)
next
  assume a: "2 < width img \<and> 3 < height img \<and>
    (\<forall>x < width img. \<forall>y < height img. nonzero_alpha img x y \<longleftrightarrow> x = 2 \<and> y = 3)"
  then have nz: "nonzero_alpha img 2 3" by simp
  have "encloses img (2, 3, 3, 4)"
    using a by (simp add: encloses_def)
  moreover have "touches img (2, 3, 3, 4)"
    unfolding touches_def prod.case
    using a nz by (intro conjI exI [of _ 2] exI [of _ 3]) simp_all
  ultimately have "getbbox img = Some (2, 3, 3, 4)" by (rule getbbox_eqI)
  then have "trim_transparent img = (crop img (2, 3, 3, 4), (2, 3, 3, 4))"
    by (simp add: trim_transparent_def)
  then show "\<exists>img'. trim_transparent img = (img', (2, 3, 3, 4)) \<and>
         width img' = 1 \<and> height img' = 1 \<and> pixels img' (0, 0) = pixels img (2, 3)"
    by (simp add: crop_def)
qed

theorem trim_smallest_box_witness:
  "has_content dot_image \<and>
   snd (trim_transparent dot_image) = (2, 3, 3, 4) \<and>
   width (fst (trim_transparent dot_image)) = 1 \<and>
   height (fst (trim_transparent dot_image)) = 1 \<and>
   pixels (fst (trim_transparent dot_image)) (0, 0) = (10, 20, 30, 255) \<and>
   \<not> has_content clear_image \<and>
   trim_transparent clear_image = (clear_image, (0, 0, 2, 1))"
proof -
  have nz: "nonzero_alpha dot_image x y \<longleftrightarrow> x = 2 \<and> y = 3" for x y
    by (simp add: nonzero_alpha_def dot_image_def)
  have hc: "has_content dot_image"
  proof -
    have "2 < width dot_image" "3 < height dot_image" "nonzero_alpha dot_image 2 3"
      by (simp_all add: nz) (simp_all add: dot_image_def)
    then show ?thesis unfolding has_content_iff by blast
  qed
  have single: "2 < width dot_image \<and> 3 < height dot_image \<and>
      (\<forall>x < width dot_image. \<forall>y < height dot_image. nonzero_alpha dot_image x y \<longleftrightarrow> x = 2 \<and> y = 3)"
    by (simp add: nz) (simp add: dot_image_def)
  have px: "pixels dot_image (2, 3) = (10, 20, 30, 255)"
    by (simp add: dot_image_def)
  have nc: "\<not> has_content clear_image"
    by (simp add: has_content_iff nonzero_alpha_def clear_image_def)
  have wh: "int (width clear_image) = 2" "int (height clear_image) = 1"
    by (simp_all add: clear_image_def)
  from trim_smallest_box [of dot_image] single px
  have "snd (trim_transparent dot_image) = (2, 3, 3, 4) \<and>
   width (fst (trim_transparent dot_image)) = 1 \<and>
   height (fst (trim_transparent dot_image)) = 1 \<and>
   pixels (fst (trim_transparent dot_image)) (0, 0) = (10, 20, 30, 255)"
    by auto
  moreover from trim_smallest_box [of clear_image] nc wh
  have "trim_transparent clear_image = (clear_image, (0, 0, 2, 1))"
    by simp
  ultimately show ?thesis using hc nc by blast
qed

lemma nonzero_alpha_crop:
  assumes "0 \<le> l" "0 \<le> t" "int x < r - l" "int y < b - t"
  shows "nonzero_alpha (crop img (l, t, r, b)) x y = nonzero_alpha img (nat (int x + l)) (nat (int y + t))"
  using assms by (simp add: nonzero_alpha_def crop_def)

lemma crop_full:
  assumes "0 \<le> l" "l < r" "0 \<le> t" "t < b"
  shows "crop (crop img (l, t, r, b)) (0, 0, int (nat (r - l)), int (nat (b - t))) = crop img (l, t, r, b)"
  using assms by (auto simp: crop_def fun_eq_iff)

text \<open>
  Claim C8. Trimming the buffer that trim returned gives that buffer back, with the box
  (0, 0, width', height') of its full extent.
\<close>

theorem trim_idempotent:
  "trim_transparent (fst (trim_transparent img)) =
     (fst (trim_transparent img),
      (0, 0, int (width (fst (trim_transparent img))), int (height (fst (trim_transparent img)))))"
proof (cases "has_content img")
  case False
  then have "getbbox img = None" by (simp add: getbbox_None)
  then show ?thesis by (simp add: trim_transparent_def)
next
  case True
  from trim_with_content [OF True] obtain l t r b where
    tr: "trim_transparent img = (crop img (l, t, r, b), (l, t, r, b))"
    and e: "encloses img (l, t, r, b)" and c: "touches img (l, t, r, b)"
    by blast
  note rg = touches_range [OF e c]
  let ?img = "crop img (l, t, r, b)"
  let ?box = "(0, 0, int (nat (r - l)), int (nat (b - t)))"
  have inside: "l \<le> int x \<and> int x < r \<and> t \<le> int y \<and> int y < b"
    if "x < width img" "y < height img" "nonzero_alpha img x y" for x y
    using e that unfolding encloses_def prod.case by blast
  have moved: "\<exists>x' < width ?img. \<exists>y' < height ?img. nonzero_alpha ?img x' y' \<and>
      int x' = int x - l \<and> int y' = int y - t"
    if "x < width img" "y < height img" "nonzero_alpha img x y" for x y
  proof -
    from inside [OF that] rg
    have "nat (int x - l) < width ?img" "nat (int y - t) < height ?img"
      "int (nat (int x - l)) = int x - l" "int (nat (int y - t)) = int y - t"
      by (simp_all add: crop_simps)
    moreover from this inside [OF that] rg that(3)
    have "nonzero_alpha ?img (nat (int x - l)) (nat (int y - t))"
      by (simp add: nonzero_alpha_crop)
    ultimately show ?thesis by blast
  qed
  have enc: "encloses ?img ?box"
    unfolding encloses_def prod.case using rg by (auto simp: crop_simps)
  have t1: "\<exists>x < width ?img. \<exists>y < height ?img. nonzero_alpha ?img x y \<and> int x = 0"
  proof -
    from c obtain x1 y1 where 1: "x1 < width img" "y1 < height img" "nonzero_alpha img x1 y1" "int x1 = l"
      unfolding touches_def prod.case by blast
    from moved [OF 1(1,2,3)] obtain x' y' where
      m: "x' < width ?img" "y' < height ?img" "nonzero_alpha ?img x' y'" "int x' = int x1 - l"
      by blast
    from m(4) 1(4) have "int x' = 0" by simp
    with m(1,2,3) show ?thesis by blast
  qed
  have t2: "\<exists>x < width ?img. \<exists>y < height ?img. nonzero_alpha ?img x y \<and> int x = int (nat (r - l)) - 1"
  proof -
    from c obtain x2 y2 where 2: "x2 < width img" "y2 < height img" "nonzero_alpha img x2 y2" "int x2 = r - 1"
      unfolding touches_def prod.case by blast
    from moved [OF 2(1,2,3)] obtain x' y' where
      m: "x' < width ?img" "y' < height ?img" "nonzero_alpha ?img x' y'" "int x' = int x2 - l"
      by blast
    from m(4) 2(4) rg have "int x' = int (nat (r - l)) - 1" by simp
    with m(1,2,3) show ?thesis by blast
  qed
  have t3: "\<exists>x < width ?img. \<exists>y < height ?img. nonzero_alpha ?img x y \<and> int y = 0"
  proof -
    from c obtain x3 y3 where 3: "x3 < width img" "y3 < height img" "nonzero_alpha img x3 y3" "int y3 = t"
      unfolding touches_def prod.case by blast
    from moved [OF 3(1,2,3)] obtain x' y' where
      m: "x' < width ?img" "y' < height ?img" "nonzero_alpha ?img x' y'" "int y' = int y3 - t"
      by blast
    from m(4) 3(4) have "int y' = 0" by simp
    with m(1,2,3) show ?thesis by blast
  qed
  have t4: "\<exists>x < width ?img. \<exists>y < height ?img. nonzero_alpha ?img x y \<and> int y = int (nat (b - t)) - 1"
  proof -
    from c obtain x4 y4 where 4: "x4 < width img" "y4 < height img" "nonzero_alpha img x4 y4" "int y4 = b - 1"
      unfolding touches_def prod.case by blast
    from moved [OF 4(1,2,3)] obtain x' y' where
      m: "x' < width ?img" "y' < height ?img" "nonzero_alpha ?img x' y'" "int y' = int y4 - t"
      by blast
    from m(4) 4(4) rg have "int y' = int (nat (b - t)) - 1" by simp
    with m(1,2,3) show ?thesis by blast
  qed
  have tch: "touches ?img ?box"
    unfolding touches_def prod.case using t1 t2 t3 t4 by (intro conjI)
  have "getbbox ?img = Some ?box"
    using enc tch by (rule getbbox_eqI)
  then have "trim_transparent ?img = (crop ?img ?box, ?box)"
    by (simp add: trim_transparent_def)
  also have "crop ?img ?box = ?img"
    using rg by (intro crop_full) simp_all
  finally show ?thesis
    by (simp add: tr crop_simps)
qed

section \<open>Lemmas about rounding to binary64\<close>














section \<open>Lemmas about parse\_seed\<close>
























section \<open>Claims about parse\_seed\<close>






end
